theory Spec2Isabelle
  imports Main "HOL-Library.Sublist" "HOL-Library.AList"
begin

section \<open>The data of \<open>find_and_replace\<close> (src/utils.py)\<close>

text \<open>
  A Python value read off an issue or off a list object. The code only asks whether the
  value is a \<open>str\<close> (line 71, and the argument of \<open>search\<close> on line 46), so every
  value that is not a \<open>str\<close> (\<open>None\<close>, numbers, methods, objects) is \<open>Other\<close>.
\<close>

datatype pyval = Text string | Other

text \<open>
  The exceptions that leave \<open>find_and_replace\<close>. The module imports \<open>re\<close>,
  \<open>sre_constants\<close> and \<open>logging\<close> and the name \<open>JIRA\<close>, and never \<open>sys\<close>: each
  of the five \<open>sys.stderr.write(...)\<close> statements (lines 24, 27, 43, 58, 86) raises
  \<open>NameError\<close> when it is reached, before anything is written.
\<close>

datatype error = NameError | AttributeError | TypeError | JIRAError string

text \<open>An entry of \<open>replacements\<close>: a dict with the keys \<open>field_name\<close>, \<open>old\<close>, \<open>new\<close>.\<close>

record replacement =
  repl_field_name :: string
  repl_old :: string
  repl_new :: string

text \<open>
  An entry of \<open>additional_tests\<close>: a dict with the key \<open>field_name\<close> and, when the rule
  is well formed, the key \<open>regex\<close>.
\<close>

record test =
  test_field_name :: string
  test_regex :: "string option"

text \<open>The keyword arguments of \<open>issue.update\<close>: a dict, in insertion order.\<close>

type_synonym changes = "(string \<times> string) list"

text \<open>
  An issue handle of the ticket store: its key, the attributes of \<open>issue.fields\<close> (name
  and value; \<open>dir\<close> gives the names, \<open>getattr\<close> the value), and what
  \<open>issue.update(**changes)\<close> does: \<open>None\<close> when it returns, \<open>Some e\<close> when it raises
  the exception \<open>e\<close>.
\<close>

record issue =
  issue_key :: string
  issue_fields :: "(string \<times> pyval) list"
  issue_update :: "changes \<Rightarrow> error option"

text \<open>
  What the Python runtime supplies and the repository does not define: \<open>re.compile\<close>
  (\<open>None\<close> when it raises \<open>sre_constants.error\<close>), the \<open>search\<close> method of a compiled
  pattern on a \<open>str\<close>, and \<open>getattr\<close> on a \<open>list\<close> object (\<open>None\<close> when the list has
  no such attribute).
\<close>

record 'r runtime =
  re_compile :: "string \<Rightarrow> 'r option"
  re_search :: "'r \<Rightarrow> string \<Rightarrow> bool"
  list_getattr :: "string \<Rightarrow> pyval option"

text \<open>
  What the run does that can be seen from outside, in order: the calls to the store and
  the lines printed to standard output, each with the values its format string shows.
\<close>

datatype event =
    SearchIssues string
  | PrintSelected nat
  | PrintEvaluating string
  | PrintSkipNonStr string string
  | PrintDryRun string changes
  | IssueUpdate string changes
  | PrintUpdated string "string list"
  | PrintSummary nat nat nat nat nat

text \<open>The four counters of lines 32 to 35 and the events so far.\<close>

record tally =
  issues_failed_tests :: nat
  changed_issues :: nat
  unchanged_issues :: nat
  failed_issues :: nat
  trace :: "event list"

definition emit :: "event list \<Rightarrow> tally \<Rightarrow> tally" where
  "emit evs s = s\<lparr>trace := trace s @ evs\<rparr>"

definition initial :: tally where
  "initial = \<lparr>issues_failed_tests = 0, changed_issues = 0, unchanged_issues = 0,
              failed_issues = 0, trace = []\<rparr>"

section \<open>\<open>str.replace\<close>\<close>

text \<open>
  \<open>old_value.replace(old, new)\<close> of line 74. For a non-empty \<open>old\<close> Python scans from
  the left, replaces the leftmost occurrence and goes on behind it; for an empty
  \<open>old\<close> it puts \<open>new\<close> before every character and at the end.
\<close>

function replace_all :: "string \<Rightarrow> string \<Rightarrow> string \<Rightarrow> string" where
  "replace_all old new [] = []"
| "replace_all old new (c # cs) =
     (if old \<noteq> [] \<and> prefix old (c # cs)
      then new @ replace_all old new (drop (length old) (c # cs))
      else c # replace_all old new cs)"
  by pat_completeness auto
termination
  by (relation "measure (\<lambda>(old, new, s). length s)") auto

definition py_replace :: "string \<Rightarrow> string \<Rightarrow> string \<Rightarrow> string" where
  "py_replace s old new =
     (if old = [] then new @ concat (map (\<lambda>c. c # new) s) else replace_all old new s)"

section \<open>\<open>find_and_replace\<close>\<close>

text \<open>
  Lines 19 to 28: the regex of every test is compiled, in order. A test without the key
  \<open>regex\<close> reaches line 27, a regex that does not compile reaches line 24 in the
  handler of \<open>sre_constants.error\<close>; both lines name \<open>sys\<close>.
\<close>

fun precompile :: "'r runtime \<Rightarrow> test list \<Rightarrow> error + (string \<times> 'r) list" where
  "precompile rt [] = Inr []"
| "precompile rt (t # ts) =
     (case test_regex t of
        None \<Rightarrow> Inl NameError
      | Some p \<Rightarrow>
          (case re_compile rt p of
             None \<Rightarrow> Inl NameError
           | Some r \<Rightarrow>
               (case precompile rt ts of
                  Inl e \<Rightarrow> Inl e
                | Inr cs \<Rightarrow> Inr ((test_field_name t, r) # cs))))"

text \<open>
  Lines 40 to 49, the loop over the tests of one issue; \<open>names\<close> is
  \<open>issue_fields = dir(issue.fields)\<close>, a list of strings. \<open>Inr b\<close> is the value of
  \<open>tests_passed\<close> after the loop. Line 43 names \<open>sys\<close>. Line 46 reads the attribute
  off \<open>issue_fields\<close>, the list of names, not off \<open>issue.fields\<close>: \<open>getattr\<close> raises
  \<open>AttributeError\<close> when a list has no such attribute, and \<open>search\<close> raises
  \<open>TypeError\<close> on a value that is not a \<open>str\<close>.
\<close>

fun run_tests :: "'r runtime \<Rightarrow> string list \<Rightarrow> (string \<times> 'r) list \<Rightarrow> error + bool" where
  "run_tests rt names [] = Inr True"
| "run_tests rt names ((f, r) # ts) =
     (if f \<notin> set names then Inl NameError
      else case list_getattr rt f of
             None \<Rightarrow> Inl AttributeError
           | Some Other \<Rightarrow> Inl TypeError
           | Some (Text d) \<Rightarrow> if re_search rt r d then run_tests rt names ts else Inr False)"

text \<open>
  Lines 62 to 76, the loop over the replacements of one issue, with the dict \<open>changes\<close>
  and the tally (for the line printed on line 72). Every replacement reads the value
  the issue had when it was fetched, \<open>getattr(issue.fields, ...)\<close>; a missing attribute
  raises \<open>AttributeError\<close>.
\<close>

fun stage :: "issue \<Rightarrow> replacement list \<Rightarrow> changes \<Rightarrow> tally \<Rightarrow> tally \<times> (error + changes)" where
  "stage i [] ch s = (s, Inr ch)"
| "stage i (r # rs) ch s =
     (case map_of (issue_fields i) (repl_field_name r) of
        None \<Rightarrow> (s, Inl AttributeError)
      | Some Other \<Rightarrow> stage i rs ch (emit [PrintSkipNonStr (issue_key i) (repl_field_name r)] s)
      | Some (Text old_value) \<Rightarrow>
          (let new_value = py_replace old_value (repl_old r) (repl_new r) in
           if old_value \<noteq> new_value
           then stage i rs (AList.update (repl_field_name r) new_value ch) s
           else stage i rs ch s))"

text \<open>
  Lines 77 to 89. The call of \<open>issue.update\<close> is an event whether it returns or raises;
  when it raises, the handler on line 86 names \<open>sys\<close>, so \<open>NameError\<close> leaves the
  handler and line 87 is not reached.
\<close>

definition apply_changes :: "bool \<Rightarrow> issue \<Rightarrow> changes \<Rightarrow> tally \<Rightarrow> tally \<times> error option" where
  "apply_changes dry_run i ch s =
     (if dry_run \<and> ch \<noteq> [] then (emit [PrintDryRun (issue_key i) ch] s, None)
      else if ch \<noteq> [] then
        (case issue_update i ch of
           None \<Rightarrow>
             (emit [IssueUpdate (issue_key i) ch, PrintUpdated (issue_key i) (map fst ch)]
                (s\<lparr>changed_issues := changed_issues s + 1\<rparr>), None)
         | Some exc \<Rightarrow> (emit [IssueUpdate (issue_key i) ch] s, Some NameError))
      else (s\<lparr>unchanged_issues := unchanged_issues s + 1\<rparr>, None))"

text \<open>
  Lines 38 to 89, the body of the loop over the issues. \<open>Some e\<close> is an exception that
  leaves the loop; the tally beside it is the state when it was raised. Line 58, for an
  issue without a field of some replacement, names \<open>sys\<close>.
\<close>

definition process_issue ::
  "'r runtime \<Rightarrow> bool \<Rightarrow> replacement list \<Rightarrow> (string \<times> 'r) list \<Rightarrow> issue \<Rightarrow> tally
     \<Rightarrow> tally \<times> error option" where
  "process_issue rt dry_run replacements tests i s0 =
     (let s = emit [PrintEvaluating (issue_key i)] s0;
          names = map fst (issue_fields i)
      in case run_tests rt names tests of
           Inl e \<Rightarrow> (s, Some e)
         | Inr False \<Rightarrow> (s\<lparr>issues_failed_tests := issues_failed_tests s + 1\<rparr>, None)
         | Inr True \<Rightarrow>
             if \<not> (\<forall>r \<in> set replacements. repl_field_name r \<in> set names)
             then (s, Some NameError)
             else (case stage i replacements [] s of
                     (s', Inl e) \<Rightarrow> (s', Some e)
                   | (s', Inr ch) \<Rightarrow> apply_changes dry_run i ch s'))"

text \<open>Line 37: the issues in the order of the search result, until one raises.\<close>

fun process_issues ::
  "'r runtime \<Rightarrow> bool \<Rightarrow> replacement list \<Rightarrow> (string \<times> 'r) list \<Rightarrow> issue list \<Rightarrow> tally
     \<Rightarrow> tally \<times> error option" where
  "process_issues rt dry_run replacements tests [] s = (s, None)"
| "process_issues rt dry_run replacements tests (i # is) s =
     (case process_issue rt dry_run replacements tests i s of
        (s', Some e) \<Rightarrow> (s', Some e)
      | (s', None) \<Rightarrow> process_issues rt dry_run replacements tests is s')"

text \<open>
  The whole function. \<open>search_issues\<close> is \<open>jira.search_issues(issue_jql, maxResults=0)\<close>
  of the client in use (the argument \<open>jira\<close>, or the one built on line 29): the issues,
  or the exception it raises. The result is the final tally and either the exception
  that left the function or the value returned to the caller. The function has no
  \<open>return\<close> with a value, so what it returns is Python's \<open>None\<close>, written \<open>None\<close>
  here; \<open>Some\<close> would carry five counts.
\<close>

type_synonym counts = "nat \<times> nat \<times> nat \<times> nat \<times> nat"

definition find_and_replace ::
  "'r runtime \<Rightarrow> (string \<Rightarrow> error + issue list) \<Rightarrow> string \<Rightarrow> replacement list \<Rightarrow> test list
     \<Rightarrow> bool \<Rightarrow> tally \<times> (error + counts option)" where
  "find_and_replace rt search_issues issue_jql replacements additional_tests dry_run =
     (case precompile rt additional_tests of
        Inl e \<Rightarrow> (initial, Inl e)
      | Inr tests \<Rightarrow>
          (case search_issues issue_jql of
             Inl e \<Rightarrow> (emit [SearchIssues issue_jql] initial, Inl e)
           | Inr issues \<Rightarrow>
               (let selected_issues = length issues;
                    s = emit [SearchIssues issue_jql, PrintSelected selected_issues] initial
                in case process_issues rt dry_run replacements tests issues s of
                     (s', Some e) \<Rightarrow> (s', Inl e)
                   | (s', None) \<Rightarrow>
                       (emit [PrintSummary selected_issues (issues_failed_tests s')
                                (changed_issues s') (unchanged_issues s') (failed_issues s')] s',
                        Inr None))))"

section \<open>Notions used in the properties\<close>

text \<open>A malformed test: it has no regex, or its regex does not compile.\<close>

definition malformed :: "'r runtime \<Rightarrow> test \<Rightarrow> bool" where
  "malformed rt t = (case test_regex t of None \<Rightarrow> True | Some p \<Rightarrow> re_compile rt p = None)"

text \<open>The summary line of line 90, and a call of \<open>issue.update\<close>.\<close>

fun is_summary :: "event \<Rightarrow> bool" where
  "is_summary (PrintSummary a b c d e) = True"
| "is_summary _ = False"

fun is_update :: "event \<Rightarrow> bool" where
  "is_update (IssueUpdate k ch) = True"
| "is_update _ = False"

text \<open>An event that is neither a call of \<open>issue.update\<close> nor the summary line.\<close>

definition quiet :: "event \<Rightarrow> bool" where
  "quiet e = (\<not> is_update e \<and> \<not> is_summary e)"

text \<open>
  \<open>sep.join(ps)\<close>: the pieces \<open>ps\<close> in order, with \<open>sep\<close> between neighbours.
\<close>

fun join :: "string \<Rightarrow> string list \<Rightarrow> string" where
  "join sep [] = []"
| "join sep [p] = p"
| "join sep (p # q # ps) = p @ sep @ join sep (q # ps)"

text \<open>The four outcome counters together.\<close>

definition outcomes :: "tally \<Rightarrow> nat" where
  "outcomes s = issues_failed_tests s + changed_issues s + unchanged_issues s + failed_issues s"

section \<open>Example inputs\<close>

text \<open>
  A runtime for the examples. It stands for CPython where the examples go: \<open>(\<close> is a
  pattern that does not compile, a pattern of letters and spaces finds a match exactly
  where it occurs as a substring, the only \<open>str\<close> attribute of a list is its
  \<open>__doc__\<close>, and a list has no attribute named \<open>status\<close> or \<open>summary\<close>.
\<close>

definition list_doc :: string where
  "list_doc = ''Built-in mutable sequence.'' @ [CHR 0x0A, CHR 0x0A]
     @ ''If no argument is given, the constructor creates a new empty list.'' @ [CHR 0x0A]
     @ ''The argument must be an iterable if specified.''"

definition contains :: "string \<Rightarrow> string \<Rightarrow> bool" where
  "contains p s = list_ex (prefix p) (suffixes s)"

definition example_rt :: "string runtime" where
  "example_rt =
     \<lparr>re_compile = (\<lambda>p. if p = ''('' then None else Some p),
      re_search = contains,
      list_getattr = (\<lambda>n. if n = ''__doc__'' then Some (Text list_doc)
                           else if n \<in> set [''append'', ''clear'', ''copy'', ''count'', ''extend'',
                                            ''index'', ''insert'', ''pop'', ''remove'', ''reverse'',
                                            ''sort'']
                           then Some Other else None)\<rparr>"

text \<open>A store whose search returns the given issues, whatever the query.\<close>

definition search_result :: "issue list \<Rightarrow> string \<Rightarrow> error + issue list" where
  "search_result issues issue_jql = Inr issues"

text \<open>The replacement and the validation rule of the scenarios of the specification.\<close>

definition v12_to_v13 :: replacement where
  "v12_to_v13 = \<lparr>repl_field_name = ''summary'', repl_old = ''v1.2'', repl_new = ''v1.3''\<rparr>"

definition status_open :: test where
  "status_open = \<lparr>test_field_name = ''status'', test_regex = Some ''Open''\<rparr>"

definition no_regex :: test where
  "no_regex = \<lparr>test_field_name = ''status'', test_regex = None\<rparr>"

text \<open>A rule on the attribute \<open>__doc__\<close>, which every Python object has.\<close>

definition doc_mutable :: test where
  "doc_mutable = \<lparr>test_field_name = ''__doc__'', test_regex = Some ''mutable sequence''\<rparr>"

text \<open>An issue whose status is \<open>Closed\<close>; the store accepts its updates.\<close>

definition closed_issue :: issue where
  "closed_issue =
     \<lparr>issue_key = ''PRJ-1'',
      issue_fields = [(''status'', Text ''Closed''), (''summary'', Text ''Build v1.2 failed'')],
      issue_update = (\<lambda>ch. None)\<rparr>"

text \<open>An issue without the field \<open>status\<close>.\<close>

definition no_status_issue :: issue where
  "no_status_issue =
     \<lparr>issue_key = ''PRJ-2'',
      issue_fields = [(''summary'', Text ''Build v1.2 failed'')],
      issue_update = (\<lambda>ch. None)\<rparr>"

text \<open>An issue whose update the store refuses.\<close>

definition refused_issue :: issue where
  "refused_issue =
     \<lparr>issue_key = ''PRJ-3'',
      issue_fields = [(''summary'', Text ''Build v1.2 failed'')],
      issue_update = (\<lambda>ch. Some (JIRAError ''HTTP 400''))\<rparr>"

text \<open>An issue whose \<open>fields\<close> object has no docstring: its \<open>__doc__\<close> is \<open>None\<close>.\<close>

definition doc_issue :: issue where
  "doc_issue =
     \<lparr>issue_key = ''PRJ-4'',
      issue_fields = [(''__doc__'', Other), (''summary'', Text ''Build v1.2 failed'')],
      issue_update = (\<lambda>ch. None)\<rparr>"

text \<open>An issue without the field \<open>summary\<close>.\<close>

definition no_summary_issue :: issue where
  "no_summary_issue =
     \<lparr>issue_key = ''PRJ-5'',
      issue_fields = [(''status'', Text ''Open'')],
      issue_update = (\<lambda>ch. None)\<rparr>"

text \<open>An issue whose status is \<open>Open\<close>, as the rule \<open>status_open\<close> asks.\<close>

definition open_issue :: issue where
  "open_issue =
     \<lparr>issue_key = ''PRJ-7'',
      issue_fields = [(''status'', Text ''Open''), (''summary'', Text ''Build v1.2 failed'')],
      issue_update = (\<lambda>ch. None)\<rparr>"

text \<open>A replacement whose \<open>old\<close> and \<open>new\<close> are characters special in a regex.\<close>

definition dot_to_star :: replacement where
  "dot_to_star = \<lparr>repl_field_name = ''summary'', repl_old = ''.'', repl_new = ''*''\<rparr>"

text \<open>A replacement whose \<open>new\<close> contains its \<open>old\<close>, and an issue to apply it to.\<close>

definition a_to_aa :: replacement where
  "a_to_aa = \<lparr>repl_field_name = ''summary'', repl_old = ''a'', repl_new = ''aa''\<rparr>"

definition summary_issue :: "string \<Rightarrow> issue" where
  "summary_issue v =
     \<lparr>issue_key = ''PRJ-6'', issue_fields = [(''summary'', Text v)], issue_update = (\<lambda>ch. None)\<rparr>"

section \<open>Malformed tests stop the run before the search\<close>

lemma precompile_raises_iff:
  "(\<exists>e. precompile rt ts = Inl e) \<longleftrightarrow> (\<exists>t \<in> set ts. malformed rt t)"
proof (induction ts)
  case Nil
  show ?case by simp
next
  case (Cons t ts)
  show ?case
  proof (cases "malformed rt t")
    case True
    then show ?thesis by (auto simp: malformed_def split: option.splits)
  next
    case False
    then obtain p r where "test_regex t = Some p" "re_compile rt p = Some r"
      by (auto simp: malformed_def split: option.splits)
    with Cons False show ?thesis by (auto split: sum.splits)
  qed
qed

text \<open>
  C1. When the list of validation rules contains a malformed rule (one without a regex,
  or one whose regex does not compile), the run ends with nothing done: the result is an
  exception, the counters are all zero and no event has happened, so the search was not
  called and no issue was evaluated or updated.
\<close>

theorem malformed_test_aborts_before_search:
  assumes "t \<in> set additional_tests" and "malformed rt t"
  shows "\<exists>e. find_and_replace rt search_issues issue_jql replacements additional_tests dry_run
           = (\<lparr>issues_failed_tests = 0, changed_issues = 0, unchanged_issues = 0,
               failed_issues = 0, trace = []\<rparr>, Inl e)"
proof -
  from assms obtain e where "precompile rt additional_tests = Inl e"
    using precompile_raises_iff [of rt additional_tests] by blast
  then show ?thesis
    by (simp add: find_and_replace_def initial_def)
qed

theorem malformed_test_aborts_before_search_witness:
  "malformed example_rt no_regex
   \<and> malformed example_rt \<lparr>test_field_name = ''summary'', test_regex = Some ''(''\<rparr>
   \<and> (\<exists>e. find_and_replace example_rt (search_result [closed_issue]) ''project = PRJ''
             [v12_to_v13]
             [status_open, \<lparr>test_field_name = ''summary'', test_regex = Some ''(''\<rparr>] False
           = (\<lparr>issues_failed_tests = 0, changed_issues = 0, unchanged_issues = 0,
               failed_issues = 0, trace = []\<rparr>, Inl e))"
proof -
  have m: "malformed example_rt \<lparr>test_field_name = ''summary'', test_regex = Some ''(''\<rparr>"
    by (simp add: malformed_def example_rt_def)
  have n: "malformed example_rt no_regex"
    by (simp add: malformed_def no_regex_def)
  have "\<lparr>test_field_name = ''summary'', test_regex = Some ''(''\<rparr>
          \<in> set [status_open, \<lparr>test_field_name = ''summary'', test_regex = Some ''(''\<rparr>]"
    by simp
  from malformed_test_aborts_before_search [OF this m] m n show ?thesis by blast
qed

section \<open>Literal replacement\<close>

text \<open>
  What \<open>replace_all\<close> does is fixed by the occurrences of \<open>old\<close> as a run of
  characters: a value without one is returned as it is, and the leftmost one is replaced
  by \<open>new\<close> before the scan goes on behind it.
\<close>

lemma replace_all_no_occurrence: "\<not> sublist old s \<Longrightarrow> replace_all old new s = s"
  by (induction s) (auto simp: sublist_Cons_right)

lemma prefix_in_front:
  assumes "prefix old (x # a @ old @ b)" shows "sublist old ((x # a) @ butlast old)"
proof -
  from assms have "old = take (length old) ((x # a) @ old @ b)"
    by (metis append_eq_conv_conj prefix_def append_Cons)
  also have "\<dots> = take (length old) ((x # a) @ butlast old)"
    by (cases old rule: rev_cases) auto
  finally have "prefix old ((x # a) @ butlast old)"
    by (metis take_is_prefix)
  then show ?thesis by (rule prefix_imp_sublist)
qed

lemma replace_all_first_occurrence:
  "old \<noteq> [] \<Longrightarrow> \<not> sublist old (a @ butlast old)
   \<Longrightarrow> replace_all old new (a @ old @ b) = a @ new @ replace_all old new b"
proof (induction a)
  case Nil
  then obtain c cs where "old @ b = c # cs" by (cases old) auto
  with Nil show ?case by (cases old) auto
next
  case (Cons x a)
  have "\<not> prefix old (x # a @ old @ b)"
  proof
    assume "prefix old (x # a @ old @ b)"
    from prefix_in_front [OF this] Cons.prems(2) show False by simp
  qed
  moreover have "\<not> sublist old (a @ butlast old)"
    using Cons.prems(2) by (auto simp: sublist_Cons_right)
  ultimately show ?case using Cons by simp
qed

lemma replace_all_step:
  "old \<noteq> [] \<Longrightarrow> replace_all old new (old @ b) = new @ replace_all old new b"
  by (cases old) auto

lemma replace_all_length_ge:
  "length old \<le> length new \<Longrightarrow> length s \<le> length (replace_all old new s)"
  by (induction old new s rule: replace_all.induct) (auto dest: prefix_length_le)

lemma replace_all_length_le:
  "length new \<le> length old \<Longrightarrow> length (replace_all old new s) \<le> length s"
proof (induction old new s rule: replace_all.induct)
  case (1 old new)
  show ?case by simp
next
  case (2 old new c cs)
  show ?case
  proof (cases "old \<noteq> [] \<and> prefix old (c # cs)")
    case True
    then have "length old \<le> Suc (length cs)"
      using prefix_length_le by fastforce
    with True 2 show ?thesis by simp
  next
    case False
    with 2 show ?thesis by auto
  qed
qed

lemma replace_all_same: "new = old \<Longrightarrow> replace_all old new s = s"
  by (induction old new s rule: replace_all.induct) (auto simp: prefix_def)

lemma replace_all_changes:
  "old \<noteq> [] \<Longrightarrow> old \<noteq> new \<Longrightarrow> sublist old s \<Longrightarrow> replace_all old new s \<noteq> s"
proof (induction old new s rule: replace_all.induct)
  case (1 old new)
  then show ?case by simp
next
  case (2 old new c cs)
  show ?case
  proof (cases "prefix old (c # cs)")
    case True
    then obtain b where b: "c # cs = old @ b" by (auto simp: prefix_def)
    have r: "replace_all old new (c # cs) = new @ replace_all old new b"
      unfolding b using "2.prems"(1) by (rule replace_all_step)
    show ?thesis
    proof
      assume "replace_all old new (c # cs) = c # cs"
      with r b have e: "new @ replace_all old new b = old @ b" by simp
      consider "length old < length new" | "length new < length old" | "length new = length old"
        by linarith
      then show False
      proof cases
        case 1
        then have "length b \<le> length (replace_all old new b)" by (simp add: replace_all_length_ge)
        with 1 have "length (old @ b) < length (new @ replace_all old new b)" by simp
        with e show False by simp
      next
        case 2
        then have "length (replace_all old new b) \<le> length b" by (simp add: replace_all_length_le)
        with 2 have "length (new @ replace_all old new b) < length (old @ b)" by simp
        with e show False by simp
      next
        case 3
        with e have "new = old" by simp
        with "2.prems" show False by simp
      qed
    qed
  next
    case False
    with "2.prems" have "sublist old cs" by (simp add: sublist_Cons_right)
    with 2 False show ?thesis by simp
  qed
qed

lemma py_replace_unchanged_iff:
  "py_replace s old new = s \<longleftrightarrow> old = new \<or> (old \<noteq> [] \<and> \<not> sublist old s)"
proof (cases "old = []")
  case True
  have "length (concat (map (\<lambda>c. c # new) s)) \<ge> length s"
    by (induction s) auto
  then have "new \<noteq> [] \<Longrightarrow> new @ concat (map (\<lambda>c. c # new) s) \<noteq> s"
    by (cases new) (auto dest: arg_cong [where f = length])
  moreover have "concat (map (\<lambda>c. [c]) s) = s" by (induction s) auto
  ultimately show ?thesis using True by (auto simp: py_replace_def)
next
  case False
  with replace_all_same [of old old s] show ?thesis
    using replace_all_changes [of old new s] replace_all_no_occurrence [of old s new]
    by (auto simp: py_replace_def)
qed

text \<open>
  Cut at the occurrences that a scan from the left finds, a value is its pieces joined
  by \<open>old\<close>, and the replacement is the same pieces joined by \<open>new\<close>. Every value
  has such pieces. For an empty \<open>old\<close> the pieces are the empty string, every
  character, and the empty string.
\<close>

lemma replace_all_join:
  "old \<noteq> [] \<Longrightarrow> ps \<noteq> [] \<Longrightarrow> \<forall>p \<in> set (butlast ps). \<not> sublist old (p @ butlast old)
   \<Longrightarrow> \<not> sublist old (last ps)
   \<Longrightarrow> replace_all old new (join old ps) = join new ps"
proof (induction old ps rule: join.induct)
  case (1 sep)
  then show ?case by simp
next
  case (2 sep p)
  then show ?case by (simp add: replace_all_no_occurrence)
next
  case (3 sep p q ps)
  from "3.prems" have "\<not> sublist sep (p @ butlast sep)" by simp
  with "3.prems"(1)
  have "replace_all sep new (p @ sep @ join sep (q # ps))
          = p @ new @ replace_all sep new (join sep (q # ps))"
    by (rule replace_all_first_occurrence)
  moreover from 3 have "replace_all sep new (join sep (q # ps)) = join new (q # ps)" by simp
  ultimately show ?case by simp
qed

lemma join_singletons:
  "join new (map (\<lambda>c. [c]) v @ [[]]) = concat (map (\<lambda>c. c # new) v)"
proof (induction v)
  case Nil
  show ?case by simp
next
  case (Cons c cs)
  obtain q qs where "map (\<lambda>c. [c]) cs @ [[]] = q # qs"
    by (cases "map (\<lambda>c. [c]) cs @ [[]]") auto
  with Cons show ?case by simp
qed

lemma py_replace_empty_old:
  "py_replace v [] new = join new ([] # map (\<lambda>c. [c]) v @ [[]])"
proof -
  obtain q qs where "map (\<lambda>c. [c]) v @ [[]] = q # qs"
    by (cases "map (\<lambda>c. [c]) v @ [[]]") auto
  with join_singletons [of new v] show ?thesis by (simp add: py_replace_def)
qed

lemma sublist_join:
  "ps \<noteq> [] \<Longrightarrow> \<not> sublist old (last ps) \<Longrightarrow> sublist old (join old ps) \<longleftrightarrow> length ps \<noteq> 1"
proof (cases ps)
  case Nil
  then show "ps \<noteq> [] \<Longrightarrow> ?thesis" by simp
next
  case (Cons p qs)
  assume "\<not> sublist old (last ps)"
  with Cons show ?thesis by (cases qs) auto
qed

lemma leftmost_occurrence:
  "old \<noteq> [] \<Longrightarrow> sublist old v
   \<Longrightarrow> \<exists>a b. v = a @ old @ b \<and> \<not> sublist old (a @ butlast old)"
proof (induction v)
  case Nil
  then show ?case by simp
next
  case (Cons c cs)
  show ?case
  proof (cases "prefix old (c # cs)")
    case True
    then obtain b where "c # cs = [] @ old @ b" by (auto simp: prefix_def)
    moreover have "\<not> sublist old ([] @ butlast old)"
      using Cons.prems(1) by (cases old) (auto dest!: sublist_length_le)
    ultimately show ?thesis by blast
  next
    case False
    with Cons.prems have "sublist old cs" by (simp add: sublist_Cons_right)
    with Cons obtain a b where ab: "cs = a @ old @ b" "\<not> sublist old (a @ butlast old)" by blast
    have "\<not> prefix old (c # a @ butlast old)"
    proof
      assume "prefix old (c # a @ butlast old)"
      moreover have "prefix (c # a @ butlast old) (c # a @ old @ b)"
        by (simp add: prefixeq_butlast)
      ultimately have "prefix old (c # cs)" using ab(1) by (metis prefix_order.trans)
      with False show False by simp
    qed
    with ab have "c # cs = (c # a) @ old @ b" "\<not> sublist old ((c # a) @ butlast old)"
      by (simp_all add: sublist_Cons_right)
    then show ?thesis by blast
  qed
qed

lemma literal_pieces_exist:
  "old \<noteq> [] \<Longrightarrow> \<exists>ps. ps \<noteq> [] \<and> v = join old ps
       \<and> (\<forall>p \<in> set (butlast ps). \<not> sublist old (p @ butlast old)) \<and> \<not> sublist old (last ps)"
proof (induction "length v" arbitrary: v rule: less_induct)
  case less
  show ?case
  proof (cases "sublist old v")
    case False
    then have "[v] \<noteq> [] \<and> v = join old [v]
       \<and> (\<forall>p \<in> set (butlast [v]). \<not> sublist old (p @ butlast old)) \<and> \<not> sublist old (last [v])"
      by simp
    then show ?thesis by blast
  next
    case True
    from leftmost_occurrence [OF less.prems True] obtain a b
      where ab: "v = a @ old @ b" "\<not> sublist old (a @ butlast old)" by blast
    with less.prems have "length b < length v" by (cases old) auto
    from less.hyps [OF this less.prems] obtain ps where ps: "ps \<noteq> []" "b = join old ps"
      "\<forall>p \<in> set (butlast ps). \<not> sublist old (p @ butlast old)" "\<not> sublist old (last ps)"
      by blast
    then obtain q qs where q: "ps = q # qs" by (cases ps) auto
    with ab ps have "a # ps \<noteq> [] \<and> v = join old (a # ps)
       \<and> (\<forall>p \<in> set (butlast (a # ps)). \<not> sublist old (p @ butlast old))
       \<and> \<not> sublist old (last (a # ps))"
      by auto
    then show ?thesis by blast
  qed
qed

section \<open>The events and counters of one issue\<close>

lemma emit_simps [simp]:
  "trace (emit evs s) = trace s @ evs"
  "issues_failed_tests (emit evs s) = issues_failed_tests s"
  "changed_issues (emit evs s) = changed_issues s"
  "unchanged_issues (emit evs s) = unchanged_issues s"
  "failed_issues (emit evs s) = failed_issues s"
  by (simp_all add: emit_def)

lemma emit_emit: "emit b (emit a s) = emit (a @ b) s"
  by (simp add: emit_def)

lemma emit_Nil: "emit [] s = s"
  by (simp add: emit_def)

lemma stage_emits:
  "\<exists>skips. fst (stage i rs ch s) = emit skips s \<and> list_all quiet skips"
proof (induction rs arbitrary: ch s)
  case Nil
  have "fst (stage i [] ch s) = emit [] s \<and> list_all quiet []" by (simp add: emit_Nil)
  then show ?case by blast
next
  case (Cons r rs)
  show ?case
  proof (cases "map_of (issue_fields i) (repl_field_name r)")
    case None
    then have "fst (stage i (r # rs) ch s) = emit [] s \<and> list_all quiet []"
      by (simp add: emit_Nil)
    then show ?thesis by blast
  next
    case (Some v)
    show ?thesis
    proof (cases v)
      case (Text old_value)
      with Some Cons.IH show ?thesis by (simp add: Let_def)
    next
      case Other
      let ?e = "PrintSkipNonStr (issue_key i) (repl_field_name r)"
      from Cons.IH [of ch "emit [?e] s"] obtain skips
        where "fst (stage i rs ch (emit [?e] s)) = emit skips (emit [?e] s)" "list_all quiet skips"
        by blast
      with Some Other
      have "fst (stage i (r # rs) ch s) = emit (?e # skips) s \<and> list_all quiet (?e # skips)"
        by (simp add: emit_emit quiet_def)
      then show ?thesis by blast
    qed
  qed
qed

lemma stage_returns:
  "\<forall>r \<in> set rs. repl_field_name r \<in> set (map fst (issue_fields i))
   \<Longrightarrow> \<exists>ch'. snd (stage i rs ch s) = Inr ch'"
proof (induction rs arbitrary: ch s)
  case Nil
  show ?case by simp
next
  case (Cons r rs)
  then obtain v where "map_of (issue_fields i) (repl_field_name r) = Some v"
    by (cases "map_of (issue_fields i) (repl_field_name r)") (auto simp: map_of_eq_None_iff)
  with Cons show ?case by (cases v) (simp_all add: Let_def)
qed

lemma update_not_Nil: "AList.update k v al \<noteq> []"
  by (cases al) auto

lemma stage_nonempty:
  "snd (stage i rs ch s) = Inr ch'
   \<Longrightarrow> ch' \<noteq> [] \<longleftrightarrow>
       ch \<noteq> [] \<or> (\<exists>r \<in> set rs. \<exists>v. map_of (issue_fields i) (repl_field_name r) = Some (Text v)
                      \<and> py_replace v (repl_old r) (repl_new r) \<noteq> v)"
proof (induction rs arbitrary: ch s)
  case Nil
  then show ?case by simp
next
  case (Cons r rs)
  show ?case
  proof (cases "map_of (issue_fields i) (repl_field_name r)")
    case None
    with Cons.prems show ?thesis by simp
  next
    case (Some v)
    show ?thesis
    proof (cases v)
      case Other
      with Some Cons show ?thesis by simp
    next
      case (Text old_value)
      show ?thesis
      proof (cases "old_value = py_replace old_value (repl_old r) (repl_new r)")
        case True
        with Some Text Cons.prems have "snd (stage i rs ch s) = Inr ch'" by simp
        from Cons.IH [OF this] True Some Text show ?thesis by auto
      next
        case False
        with Some Text Cons.prems
        have "snd (stage i rs (AList.update (repl_field_name r)
                 (py_replace old_value (repl_old r) (repl_new r)) ch) s) = Inr ch'"
          by (simp add: Let_def)
        from Cons.IH [OF this] False Some Text show ?thesis
          by (auto simp: update_not_Nil)
      qed
    qed
  qed
qed

lemma apply_changes_events:
  "apply_changes d i ch s = (s', r)
   \<Longrightarrow> \<exists>evs. trace s' = trace s @ evs \<and> list_all (\<lambda>e. \<not> is_summary e) evs
          \<and> (d \<longrightarrow> list_all (\<lambda>e. \<not> is_update e) evs \<and> changed_issues s' = changed_issues s)
          \<and> length (filter is_update evs) \<le> 1"
  by (auto simp: apply_changes_def split: if_splits option.splits)

lemma process_issue_raise:
  "run_tests rt (map fst (issue_fields i)) ts = Inl e
   \<Longrightarrow> process_issue rt d rs ts i s = (emit [PrintEvaluating (issue_key i)] s, Some e)"
  by (simp add: process_issue_def)

lemma process_issue_failed_tests:
  "run_tests rt (map fst (issue_fields i)) ts = Inr False
   \<Longrightarrow> process_issue rt d rs ts i s
       = ((emit [PrintEvaluating (issue_key i)] s)
            \<lparr>issues_failed_tests := issues_failed_tests s + 1\<rparr>, None)"
  by (simp add: process_issue_def)

lemma process_issue_missing_field:
  "run_tests rt (map fst (issue_fields i)) ts = Inr True
   \<Longrightarrow> \<not> (\<forall>r \<in> set rs. repl_field_name r \<in> set (map fst (issue_fields i)))
   \<Longrightarrow> process_issue rt d rs ts i s = (emit [PrintEvaluating (issue_key i)] s, Some NameError)"
  by (simp add: process_issue_def)

lemma process_issue_staged:
  "run_tests rt (map fst (issue_fields i)) ts = Inr True
   \<Longrightarrow> \<forall>r \<in> set rs. repl_field_name r \<in> set (map fst (issue_fields i))
   \<Longrightarrow> stage i rs [] (emit [PrintEvaluating (issue_key i)] s) = (s1, x)
   \<Longrightarrow> process_issue rt d rs ts i s
       = (case x of Inl e \<Rightarrow> (s1, Some e) | Inr ch \<Rightarrow> apply_changes d i ch s1)"
  by (simp add: process_issue_def)

lemma process_issue_events:
  assumes "process_issue rt d rs ts i s = (s', r)"
  shows "\<exists>evs. trace s' = trace s @ evs \<and> list_all (\<lambda>e. \<not> is_summary e) evs
          \<and> (d \<longrightarrow> list_all (\<lambda>e. \<not> is_update e) evs \<and> changed_issues s' = changed_issues s)
          \<and> length (filter is_update evs) \<le> 1"
proof -
  let ?s = "emit [PrintEvaluating (issue_key i)] s"
  let ?P = "\<lambda>evs. trace s' = trace s @ evs \<and> list_all (\<lambda>e. \<not> is_summary e) evs
          \<and> (d \<longrightarrow> list_all (\<lambda>e. \<not> is_update e) evs \<and> changed_issues s' = changed_issues s)
          \<and> length (filter is_update evs) \<le> 1"
  obtain skips where sk: "fst (stage i rs [] ?s) = emit skips ?s" "list_all quiet skips"
    using stage_emits by blast
  have q: "list_all (\<lambda>e. \<not> is_summary e) skips" "list_all (\<lambda>e. \<not> is_update e) skips"
    "filter is_update skips = []"
    using sk(2) by (auto simp: quiet_def list_all_iff filter_empty_conv)
  consider (raise) e where "run_tests rt (map fst (issue_fields i)) ts = Inl e"
    | (failed) "run_tests rt (map fst (issue_fields i)) ts = Inr False"
    | (missing) "run_tests rt (map fst (issue_fields i)) ts = Inr True"
        "\<not> (\<forall>r \<in> set rs. repl_field_name r \<in> set (map fst (issue_fields i)))"
    | (staged) "run_tests rt (map fst (issue_fields i)) ts = Inr True"
        "\<forall>r \<in> set rs. repl_field_name r \<in> set (map fst (issue_fields i))"
    by (cases "run_tests rt (map fst (issue_fields i)) ts") auto
  then show ?thesis
  proof cases
    case raise
    from process_issue_raise [OF this, of d rs s] assms
    have "?P [PrintEvaluating (issue_key i)]" by auto
    then show ?thesis by blast
  next
    case failed
    from process_issue_failed_tests [OF this, of d rs s] assms
    have "?P [PrintEvaluating (issue_key i)]" by auto
    then show ?thesis by blast
  next
    case missing
    from process_issue_missing_field [OF this, of d s] assms
    have "?P [PrintEvaluating (issue_key i)]" by auto
    then show ?thesis by blast
  next
    case staged
    obtain s1 x where st: "stage i rs [] ?s = (s1, x)" by (cases "stage i rs [] ?s")
    with sk have s1: "s1 = emit (PrintEvaluating (issue_key i) # skips) s"
      by (simp add: emit_emit)
    note p = process_issue_staged [OF staged st, of d]
    show ?thesis
    proof (cases x)
      case (Inl e)
      with p assms have "s' = s1" by simp
      with s1 q have "?P (PrintEvaluating (issue_key i) # skips)" by simp
      then show ?thesis by blast
    next
      case (Inr ch)
      with p assms have "apply_changes d i ch s1 = (s', r)" by simp
      from apply_changes_events [OF this] obtain evs where
        e: "trace s' = trace s1 @ evs" "list_all (\<lambda>e. \<not> is_summary e) evs"
          "d \<longrightarrow> list_all (\<lambda>e. \<not> is_update e) evs \<and> changed_issues s' = changed_issues s1"
          "length (filter is_update evs) \<le> 1" by blast
      have "?P (PrintEvaluating (issue_key i) # skips @ evs)"
        using e q s1 by simp
      then show ?thesis by blast
    qed
  qed
qed
lemma process_issues_events:
  "process_issues rt d rs ts is s = (s', r)
   \<Longrightarrow> \<exists>evs. trace s' = trace s @ evs \<and> list_all (\<lambda>e. \<not> is_summary e) evs
          \<and> (d \<longrightarrow> list_all (\<lambda>e. \<not> is_update e) evs \<and> changed_issues s' = changed_issues s)"
proof (induction "is" arbitrary: s)
  case Nil
  then show ?case by simp
next
  case (Cons i "is")
  obtain s1 r1 where p: "process_issue rt d rs ts i s = (s1, r1)"
    by (cases "process_issue rt d rs ts i s")
  from process_issue_events [OF p] obtain evs1 where
    e1: "trace s1 = trace s @ evs1" "list_all (\<lambda>e. \<not> is_summary e) evs1"
      "d \<longrightarrow> list_all (\<lambda>e. \<not> is_update e) evs1 \<and> changed_issues s1 = changed_issues s"
    by blast
  show ?case
  proof (cases r1)
    case (Some e)
    with p Cons.prems have "s' = s1" by simp
    with e1 show ?thesis by blast
  next
    case None
    with p Cons.prems have "process_issues rt d rs ts is s1 = (s', r)" by simp
    from Cons.IH [OF this] obtain evs2 where
      e2: "trace s' = trace s1 @ evs2" "list_all (\<lambda>e. \<not> is_summary e) evs2"
        "d \<longrightarrow> list_all (\<lambda>e. \<not> is_update e) evs2 \<and> changed_issues s' = changed_issues s1"
      by blast
    have "trace s' = trace s @ (evs1 @ evs2)" using e1 e2 by simp
    moreover have "list_all (\<lambda>e. \<not> is_summary e) (evs1 @ evs2)" using e1 e2 by simp
    moreover have "d \<longrightarrow> list_all (\<lambda>e. \<not> is_update e) (evs1 @ evs2)
        \<and> changed_issues s' = changed_issues s" using e1 e2 by simp
    ultimately show ?thesis by blast
  qed
qed

lemma filter_is_summary_none: "list_all (\<lambda>e. \<not> is_summary e) evs \<Longrightarrow> filter is_summary evs = []"
  by (simp add: list_all_iff filter_empty_conv)

text \<open>
  In a run without \<open>dry_run\<close>, an issue that is processed without an exception
  adds one to exactly one of the four counters.
\<close>

lemma apply_changes_outcomes:
  "apply_changes False i ch s = (s', None) \<Longrightarrow> outcomes s' = Suc (outcomes s)"
  by (auto simp: apply_changes_def outcomes_def split: if_splits option.splits)

lemma process_issue_outcomes:
  assumes "process_issue rt False rs ts i s = (s', None)"
  shows "outcomes s' = Suc (outcomes s)"
proof -
  let ?s = "emit [PrintEvaluating (issue_key i)] s"
  consider (raise) e where "run_tests rt (map fst (issue_fields i)) ts = Inl e"
    | (failed) "run_tests rt (map fst (issue_fields i)) ts = Inr False"
    | (missing) "run_tests rt (map fst (issue_fields i)) ts = Inr True"
        "\<not> (\<forall>r \<in> set rs. repl_field_name r \<in> set (map fst (issue_fields i)))"
    | (staged) "run_tests rt (map fst (issue_fields i)) ts = Inr True"
        "\<forall>r \<in> set rs. repl_field_name r \<in> set (map fst (issue_fields i))"
    by (cases "run_tests rt (map fst (issue_fields i)) ts") auto
  then show ?thesis
  proof cases
    case raise
    from process_issue_raise [OF this, of False rs s] assms show ?thesis by simp
  next
    case failed
    from process_issue_failed_tests [OF this, of False rs s] assms show ?thesis
      by (auto simp: outcomes_def)
  next
    case missing
    from process_issue_missing_field [OF this, of False s] assms show ?thesis by simp
  next
    case staged
    obtain skips where sk: "fst (stage i rs [] ?s) = emit skips ?s"
      using stage_emits by blast
    obtain s1 x where st: "stage i rs [] ?s = (s1, x)" by (cases "stage i rs [] ?s")
    with sk have s1: "outcomes s1 = outcomes s" by (simp add: outcomes_def)
    show ?thesis
    proof (cases x)
      case (Inl e)
      with process_issue_staged [OF staged st, of False] assms show ?thesis by simp
    next
      case (Inr ch)
      with process_issue_staged [OF staged st, of False] assms
      have "apply_changes False i ch s1 = (s', None)" by simp
      from apply_changes_outcomes [OF this] s1 show ?thesis by simp
    qed
  qed
qed

lemma process_issues_outcomes:
  "process_issues rt False rs ts is s = (s', None) \<Longrightarrow> outcomes s' = outcomes s + length is"
proof (induction "is" arbitrary: s)
  case Nil
  then show ?case by simp
next
  case (Cons i "is")
  obtain s1 r1 where p: "process_issue rt False rs ts i s = (s1, r1)"
    by (cases "process_issue rt False rs ts i s")
  with Cons.prems have r1: "r1 = None" by (cases r1) auto
  with p Cons.prems have "process_issues rt False rs ts is s1 = (s', None)" by simp
  from Cons.IH [OF this] process_issue_outcomes [OF p [unfolded r1]] show ?case by simp
qed
section \<open>What the replacements stage\<close>

text \<open>
  The value that \<open>stage\<close> leaves in the change-set for a field, when every replacement
  on that field has the same \<open>old\<close> and \<open>new\<close>.
\<close>

lemma stage_map_of_field:
  assumes "\<forall>q \<in> set rs. repl_field_name q \<in> set (map fst (issue_fields i))"
    and "map_of (issue_fields i) f = Some (Text v)"
    and "\<forall>q \<in> set rs. repl_field_name q = f \<longrightarrow> repl_old q = old \<and> repl_new q = new"
  shows "\<exists>ch'. snd (stage i rs ch s) = Inr ch'
     \<and> map_of ch' f = (if (\<exists>q \<in> set rs. repl_field_name q = f) \<and> py_replace v old new \<noteq> v
                        then Some (py_replace v old new) else map_of ch f)"
  using assms
proof (induction rs arbitrary: ch s)
  case Nil
  show ?case by simp
next
  case (Cons r rs)
  then obtain x where x: "map_of (issue_fields i) (repl_field_name r) = Some x"
    by (cases "map_of (issue_fields i) (repl_field_name r)") (auto simp: map_of_eq_None_iff)
  have ih: "\<exists>ch'. snd (stage i rs c t) = Inr ch'
     \<and> map_of ch' f = (if (\<exists>q \<in> set rs. repl_field_name q = f) \<and> py_replace v old new \<noteq> v
                        then Some (py_replace v old new) else map_of c f)" for c t
    using Cons.IH [of c t] Cons.prems by simp
  obtain c t where step: "stage i (r # rs) ch s = stage i rs c t"
    and c: "map_of c f = (if repl_field_name r = f \<and> py_replace v old new \<noteq> v
                          then Some (py_replace v old new) else map_of ch f)"
  proof (cases x)
    case Other
    with x Cons.prems(2) have "repl_field_name r \<noteq> f" by auto
    with x Other that [of ch "emit [PrintSkipNonStr (issue_key i) (repl_field_name r)] s"]
    show ?thesis by simp
  next
    case (Text u)
    let ?nv = "py_replace u (repl_old r) (repl_new r)"
    have e: "u = v \<and> repl_old r = old \<and> repl_new r = new" if "repl_field_name r = f"
      using that x Text Cons.prems by auto
    show ?thesis
    proof (cases "u = ?nv")
      case True
      with x Text have "stage i (r # rs) ch s = stage i rs ch s" by simp
      moreover from True e
      have "map_of ch f = (if repl_field_name r = f \<and> py_replace v old new \<noteq> v
                          then Some (py_replace v old new) else map_of ch f)" by auto
      ultimately show ?thesis using that by blast
    next
      case False
      with x Text have "stage i (r # rs) ch s
          = stage i rs (AList.update (repl_field_name r) ?nv ch) s" by (simp add: Let_def)
      moreover from False e
      have "map_of (AList.update (repl_field_name r) ?nv ch) f
              = (if repl_field_name r = f \<and> py_replace v old new \<noteq> v
                 then Some (py_replace v old new) else map_of ch f)"
        by (auto simp: update_conv')
      ultimately show ?thesis using that by blast
    qed
  qed
  from ih [of c t] obtain ch' where ch': "snd (stage i rs c t) = Inr ch'"
    "map_of ch' f = (if (\<exists>q \<in> set rs. repl_field_name q = f) \<and> py_replace v old new \<noteq> v
                        then Some (py_replace v old new) else map_of c f)" by blast
  with step c have "snd (stage i (r # rs) ch s) = Inr ch'
     \<and> map_of ch' f = (if (\<exists>q \<in> set (r # rs). repl_field_name q = f) \<and> py_replace v old new \<noteq> v
                        then Some (py_replace v old new) else map_of ch f)"
    by auto
  then show ?case by blast
qed

lemma stage_append:
  "stage i (rs1 @ rs2) ch s
     = (case stage i rs1 ch s of
          (s1, Inl e) \<Rightarrow> (s1, Inl e)
        | (s1, Inr ch1) \<Rightarrow> stage i rs2 ch1 s1)"
  by (induction rs1 arbitrary: ch s) (auto simp: Let_def split: option.splits pyval.splits)

text \<open>
  C7. Replacement is literal in what lines 74 to 76 stage for the update. Take any
  replacement \<open>r\<close> of the list whose field holds the text \<open>v\<close>, with \<open>rs1\<close> the
  replacements before it and \<open>rs2\<close> those behind it, none of which is on the field of
  \<open>r\<close> (\<open>rs2\<close> may be empty: then the change-set is the one right after \<open>r\<close>). For a
  non-empty \<open>old\<close>: when \<open>v\<close> is the pieces \<open>ps\<close> joined by \<open>old\<close>, no piece followed
  by an \<open>old\<close> letting \<open>old\<close> begin earlier and the last piece free of \<open>old\<close>, the
  value staged for the field is the same pieces joined by \<open>new\<close>, character for
  character; when there is one piece only (\<open>old\<close> does not occur) or \<open>old\<close> is
  \<open>new\<close>, the field's entry is left as the replacements before \<open>r\<close> made it. For an
  empty \<open>old\<close>: \<open>new\<close> is put before every character and at the end. Which characters
  \<open>old\<close> and \<open>new\<close> are made of plays no part.
\<close>

theorem staged_replacement_is_literal:
  assumes "\<forall>q \<in> set (rs1 @ r # rs2). repl_field_name q \<in> set (map fst (issue_fields i))"
    and "\<forall>q \<in> set rs2. repl_field_name q \<noteq> repl_field_name r"
    and "map_of (issue_fields i) (repl_field_name r) = Some (Text v)"
  shows "\<exists>ch1 ch. snd (stage i rs1 [] s) = Inr ch1
     \<and> snd (stage i (rs1 @ r # rs2) [] s) = Inr ch
     \<and> (repl_old r \<noteq> [] \<and> ps \<noteq> [] \<and> v = join (repl_old r) ps
          \<and> (\<forall>p \<in> set (butlast ps). \<not> sublist (repl_old r) (p @ butlast (repl_old r)))
          \<and> \<not> sublist (repl_old r) (last ps)
        \<longrightarrow> map_of ch (repl_field_name r)
              = (if length ps = 1 \<or> repl_old r = repl_new r then map_of ch1 (repl_field_name r)
                 else Some (join (repl_new r) ps)))
     \<and> (repl_old r = []
        \<longrightarrow> map_of ch (repl_field_name r)
              = (if repl_new r = [] then map_of ch1 (repl_field_name r)
                 else Some (join (repl_new r) ([] # map (\<lambda>c. [c]) v @ [[]]))))"
proof -
  let ?old = "repl_old r" and ?new = "repl_new r" and ?f = "repl_field_name r"
  from assms(1) have p1: "\<forall>q \<in> set rs1. repl_field_name q \<in> set (map fst (issue_fields i))"
    and p2: "\<forall>q \<in> set (r # rs2). repl_field_name q \<in> set (map fst (issue_fields i))"
    by auto
  obtain s1 x where st1: "stage i rs1 [] s = (s1, x)" by (cases "stage i rs1 [] s")
  with stage_returns [OF p1, of "[]" s] obtain ch1 where ch1: "x = Inr ch1" by auto
  from st1 ch1 have step: "stage i (rs1 @ r # rs2) [] s = stage i (r # rs2) ch1 s1"
    by (simp add: stage_append)
  have same: "\<forall>q \<in> set (r # rs2). repl_field_name q = ?f \<longrightarrow> repl_old q = ?old \<and> repl_new q = ?new"
    using assms(2) by auto
  have ex: "\<exists>q \<in> set (r # rs2). repl_field_name q = ?f" by simp
  from stage_map_of_field [OF p2 assms(3) same, of ch1 s1]
  obtain ch where "snd (stage i (r # rs2) ch1 s1) = Inr ch"
    and m: "map_of ch ?f
       = (if py_replace v ?old ?new \<noteq> v then Some (py_replace v ?old ?new) else map_of ch1 ?f)"
    by (auto simp: ex)
  with step have ch: "snd (stage i (rs1 @ r # rs2) [] s) = Inr ch" by simp
  have a: "map_of ch ?f
              = (if length ps = 1 \<or> ?old = ?new then map_of ch1 ?f else Some (join ?new ps))"
    if h: "?old \<noteq> []" "ps \<noteq> []" "v = join ?old ps"
      "\<forall>p \<in> set (butlast ps). \<not> sublist ?old (p @ butlast ?old)" "\<not> sublist ?old (last ps)"
  proof -
    from h have "py_replace v ?old ?new = join ?new ps"
      by (simp add: py_replace_def replace_all_join)
    moreover have "py_replace v ?old ?new = v \<longleftrightarrow> length ps = 1 \<or> ?old = ?new"
      using h py_replace_unchanged_iff [of v ?old ?new] sublist_join [of ps ?old] by auto
    ultimately show ?thesis using m by auto
  qed
  have b: "map_of ch ?f
              = (if ?new = [] then map_of ch1 ?f
                 else Some (join ?new ([] # map (\<lambda>c. [c]) v @ [[]])))"
    if h: "?old = []"
  proof -
    have "py_replace v ?old ?new = v \<longleftrightarrow> ?new = []"
      using h py_replace_unchanged_iff [of v ?old ?new] by auto
    with m h py_replace_empty_old [of v ?new] show ?thesis by auto
  qed
  from st1 ch1 have "snd (stage i rs1 [] s) = Inr ch1" by simp
  with ch a b show ?thesis by blast
qed

theorem staged_replacement_is_literal_witness:
  "repl_field_name dot_to_star \<in> set (map fst (issue_fields (summary_issue ''a.b axb'')))
   \<and> map_of (issue_fields (summary_issue ''a.b axb'')) (repl_field_name dot_to_star)
       = Some (Text ''a.b axb'')
   \<and> repl_old dot_to_star \<noteq> []
   \<and> ''a.b axb'' = join (repl_old dot_to_star) [''a'', ''b axb'']
   \<and> \<not> sublist (repl_old dot_to_star) (''a'' @ butlast (repl_old dot_to_star))
   \<and> \<not> sublist (repl_old dot_to_star) ''b axb''
   \<and> (\<exists>ch. snd (stage (summary_issue ''a.b axb'') [dot_to_star] [] initial) = Inr ch
         \<and> map_of ch ''summary'' = Some ''a*b axb'')"
proof -
  have h: "\<forall>q \<in> set ([] @ dot_to_star # []).
             repl_field_name q \<in> set (map fst (issue_fields (summary_issue ''a.b axb'')))"
    "\<forall>q \<in> set []. repl_field_name q \<noteq> repl_field_name dot_to_star"
    "map_of (issue_fields (summary_issue ''a.b axb'')) (repl_field_name dot_to_star)
       = Some (Text ''a.b axb'')"
    by (simp_all add: summary_issue_def dot_to_star_def)
  have g: "repl_old dot_to_star \<noteq> []"
    "''a.b axb'' = join (repl_old dot_to_star) [''a'', ''b axb'']"
    "\<not> sublist (repl_old dot_to_star) (''a'' @ butlast (repl_old dot_to_star))"
    "\<not> sublist (repl_old dot_to_star) ''b axb''"
    by (simp_all add: dot_to_star_def sublist_Cons_right)
  have k: "repl_old dot_to_star \<noteq> [] \<and> [''a'', ''b axb''] \<noteq> []
      \<and> ''a.b axb'' = join (repl_old dot_to_star) [''a'', ''b axb'']
      \<and> (\<forall>p \<in> set (butlast [''a'', ''b axb'']).
            \<not> sublist (repl_old dot_to_star) (p @ butlast (repl_old dot_to_star)))
      \<and> \<not> sublist (repl_old dot_to_star) (last [''a'', ''b axb''])"
    by (simp add: dot_to_star_def sublist_Cons_right)
  from staged_replacement_is_literal [OF h, where ps = "[''a'', ''b axb'']" and s = initial]
  obtain ch1 ch where ch1: "snd (stage (summary_issue ''a.b axb'') [] [] initial) = Inr ch1"
    and ch: "snd (stage (summary_issue ''a.b axb'') ([] @ dot_to_star # []) [] initial) = Inr ch"
    and imp: "repl_old dot_to_star \<noteq> [] \<and> [''a'', ''b axb''] \<noteq> []
      \<and> ''a.b axb'' = join (repl_old dot_to_star) [''a'', ''b axb'']
      \<and> (\<forall>p \<in> set (butlast [''a'', ''b axb'']).
            \<not> sublist (repl_old dot_to_star) (p @ butlast (repl_old dot_to_star)))
      \<and> \<not> sublist (repl_old dot_to_star) (last [''a'', ''b axb''])
      \<longrightarrow> map_of ch (repl_field_name dot_to_star)
            = (if length [''a'', ''b axb''] = 1 \<or> repl_old dot_to_star = repl_new dot_to_star
               then map_of ch1 (repl_field_name dot_to_star)
               else Some (join (repl_new dot_to_star) [''a'', ''b axb'']))"
    by blast
  from imp k have "map_of ch (repl_field_name dot_to_star)
            = (if length [''a'', ''b axb''] = 1 \<or> repl_old dot_to_star = repl_new dot_to_star
               then map_of ch1 (repl_field_name dot_to_star)
               else Some (join (repl_new dot_to_star) [''a'', ''b axb'']))"
    by (rule mp)
  then have "map_of ch ''summary'' = Some ''a*b axb''"
    by (simp add: dot_to_star_def)
  moreover from ch have "snd (stage (summary_issue ''a.b axb'') [dot_to_star] [] initial) = Inr ch"
    by simp
  ultimately
  have "\<exists>ch. snd (stage (summary_issue ''a.b axb'') [dot_to_star] [] initial) = Inr ch
         \<and> map_of ch ''summary'' = Some ''a*b axb''" by blast
  with g h(3) show ?thesis
    by (simp add: summary_issue_def dot_to_star_def)
qed

section \<open>Exceptions and the counter of failed issues\<close>

text \<open>
  The exceptions of one issue, whatever the rest of the input: the first validation rule
  names a field the issue does not have (line 43), or a field the issue has and a list
  does not (line 46); the store refuses the update (line 86).
\<close>

lemma first_test_field_missing:
  "f \<notin> set (map fst (issue_fields i))
   \<Longrightarrow> process_issue rt d rs ((f, r) # ts) i s
       = (emit [PrintEvaluating (issue_key i)] s, Some NameError)"
  by (simp add: process_issue_def)

lemma first_test_field_not_of_list:
  "f \<in> set (map fst (issue_fields i)) \<Longrightarrow> list_getattr rt f = None
   \<Longrightarrow> process_issue rt d rs ((f, r) # ts) i s
       = (emit [PrintEvaluating (issue_key i)] s, Some AttributeError)"
  by (simp add: process_issue_def)

lemma refused_update_raises:
  "ch \<noteq> [] \<Longrightarrow> issue_update i ch = Some exc
   \<Longrightarrow> apply_changes False i ch s = (emit [IssueUpdate (issue_key i) ch] s, Some NameError)"
  by (simp add: apply_changes_def)

text \<open>
  No path adds to \<open>failed_issues\<close>: the two statements that would (lines 60 and 87) stand
  behind statements that raise \<open>NameError\<close> (lines 58 and 86).
\<close>

lemma apply_changes_failed_issues:
  "apply_changes d i ch s = (s', r) \<Longrightarrow> failed_issues s' = failed_issues s"
  by (auto simp: apply_changes_def split: if_splits option.splits)

lemma process_issue_failed_issues:
  assumes "process_issue rt d rs ts i s = (s', r)"
  shows "failed_issues s' = failed_issues s"
proof -
  let ?s = "emit [PrintEvaluating (issue_key i)] s"
  consider (raise) e where "run_tests rt (map fst (issue_fields i)) ts = Inl e"
    | (failed) "run_tests rt (map fst (issue_fields i)) ts = Inr False"
    | (missing) "run_tests rt (map fst (issue_fields i)) ts = Inr True"
        "\<not> (\<forall>r \<in> set rs. repl_field_name r \<in> set (map fst (issue_fields i)))"
    | (staged) "run_tests rt (map fst (issue_fields i)) ts = Inr True"
        "\<forall>r \<in> set rs. repl_field_name r \<in> set (map fst (issue_fields i))"
    by (cases "run_tests rt (map fst (issue_fields i)) ts") auto
  then show ?thesis
  proof cases
    case raise
    from process_issue_raise [OF this, of d rs s] assms show ?thesis by auto
  next
    case failed
    from process_issue_failed_tests [OF this, of d rs s] assms show ?thesis by auto
  next
    case missing
    from process_issue_missing_field [OF this, of d s] assms show ?thesis by auto
  next
    case staged
    obtain skips where sk: "fst (stage i rs [] ?s) = emit skips ?s"
      using stage_emits by blast
    obtain s1 x where st: "stage i rs [] ?s = (s1, x)" by (cases "stage i rs [] ?s")
    with sk have s1: "failed_issues s1 = failed_issues s" by simp
    show ?thesis
    proof (cases x)
      case (Inl e)
      with process_issue_staged [OF staged st, of d] assms s1 show ?thesis by simp
    next
      case (Inr ch)
      with process_issue_staged [OF staged st, of d] assms
      have "apply_changes d i ch s1 = (s', r)" by simp
      from apply_changes_failed_issues [OF this] s1 show ?thesis by simp
    qed
  qed
qed

lemma process_issues_failed_issues:
  "process_issues rt d rs ts is s = (s', r) \<Longrightarrow> failed_issues s' = failed_issues s"
proof (induction "is" arbitrary: s)
  case Nil
  then show ?case by simp
next
  case (Cons i "is")
  obtain s1 r1 where p: "process_issue rt d rs ts i s = (s1, r1)"
    by (cases "process_issue rt d rs ts i s")
  from process_issue_failed_issues [OF p] have f: "failed_issues s1 = failed_issues s" .
  show ?case
  proof (cases r1)
    case (Some e)
    with p Cons.prems f show ?thesis by simp
  next
    case None
    with p Cons.prems have "process_issues rt d rs ts is s1 = (s', r)" by simp
    from Cons.IH [OF this] f show ?thesis by simp
  qed
qed

lemma failed_issues_never_counted:
  "failed_issues (fst (find_and_replace rt search_issues issue_jql replacements additional_tests
      dry_run)) = 0"
proof (cases "precompile rt additional_tests")
  case (Inl e)
  then show ?thesis by (simp add: find_and_replace_def initial_def)
next
  case (Inr tests)
  show ?thesis
  proof (cases "search_issues issue_jql")
    case (Inl e)
    with Inr show ?thesis by (simp add: find_and_replace_def initial_def)
  next
    case issues: (Inr issues)
    let ?s0 = "emit [SearchIssues issue_jql, PrintSelected (length issues)] initial"
    obtain s1 r1 where p: "process_issues rt dry_run replacements tests issues ?s0 = (s1, r1)"
      by (cases "process_issues rt dry_run replacements tests issues ?s0")
    from process_issues_failed_issues [OF p] have "failed_issues s1 = 0"
      by (simp add: initial_def)
    with Inr issues p show ?thesis
      by (cases r1) (simp_all add: find_and_replace_def)
  qed
qed

text \<open>
  An update of an issue is called only outside a dry run, after \<open>run_tests\<close> has
  returned \<open>True\<close>, with a non-empty change-set, and when some replacement changes the
  text of its field.
\<close>

lemma update_requires:
  assumes p: "process_issue rt d rs ts i s = (s', r)"
    and t: "trace s' = trace s @ evs"
    and u: "IssueUpdate k ch \<in> set evs"
  shows "\<not> d \<and> run_tests rt (map fst (issue_fields i)) ts = Inr True \<and> k = issue_key i
     \<and> ch \<noteq> []
     \<and> (\<exists>r \<in> set rs. \<exists>v. map_of (issue_fields i) (repl_field_name r) = Some (Text v)
           \<and> py_replace v (repl_old r) (repl_new r) \<noteq> v)"
proof -
  let ?s = "emit [PrintEvaluating (issue_key i)] s"
  consider (raise) e where "run_tests rt (map fst (issue_fields i)) ts = Inl e"
    | (failed) "run_tests rt (map fst (issue_fields i)) ts = Inr False"
    | (missing) "run_tests rt (map fst (issue_fields i)) ts = Inr True"
        "\<not> (\<forall>r \<in> set rs. repl_field_name r \<in> set (map fst (issue_fields i)))"
    | (staged) "run_tests rt (map fst (issue_fields i)) ts = Inr True"
        "\<forall>r \<in> set rs. repl_field_name r \<in> set (map fst (issue_fields i))"
    by (cases "run_tests rt (map fst (issue_fields i)) ts") auto
  then show ?thesis
  proof cases
    case raise
    from process_issue_raise [OF this, of d rs s] p t u show ?thesis by auto
  next
    case failed
    from process_issue_failed_tests [OF this, of d rs s] p t u show ?thesis by auto
  next
    case missing
    from process_issue_missing_field [OF this, of d s] p t u show ?thesis by auto
  next
    case staged
    obtain skips where sk: "fst (stage i rs [] ?s) = emit skips ?s" "list_all quiet skips"
      using stage_emits by blast
    obtain s1 x where st: "stage i rs [] ?s = (s1, x)" by (cases "stage i rs [] ?s")
    with sk have s1: "s1 = emit (PrintEvaluating (issue_key i) # skips) s"
      by (simp add: emit_emit)
    have q: "IssueUpdate k ch \<notin> set skips"
      using sk(2) by (auto simp: quiet_def list_all_iff)
    show ?thesis
    proof (cases x)
      case (Inl e)
      with process_issue_staged [OF staged st, of d] p have "s' = s1" by simp
      with s1 t u q show ?thesis by auto
    next
      case (Inr c)
      with st have c: "snd (stage i rs [] ?s) = Inr c" by simp
      from Inr process_issue_staged [OF staged st, of d] p
      have a: "apply_changes d i c s1 = (s', r)" by simp
      with s1 t u q have "\<not> d \<and> c \<noteq> [] \<and> k = issue_key i \<and> ch = c"
        by (auto simp: apply_changes_def split: if_splits option.splits)
      with stage_nonempty [OF c] staged(1) show ?thesis by simp
    qed
  qed
qed

section \<open>Validation rules\<close>

text \<open>
  C2. The scenario of the specification: the rule asks for \<open>Open\<close> in the field
  \<open>status\<close>, the issue's \<open>status\<close> is \<open>Closed\<close>. The specification expects the
  issue to be counted under failed tests and the run to go on. Line 46 asks the list of
  attribute names, not the issue, for the attribute \<open>status\<close>: the run ends there with
  \<open>AttributeError\<close>, the counter of failed tests is 0 and no summary is printed.
\<close>

theorem failing_test_raises_attribute_error: 
  "find_and_replace example_rt (search_result [closed_issue]) ''project = PRJ'' [v12_to_v13]
     [status_open] False
   = (\<lparr>issues_failed_tests = 0, changed_issues = 0, unchanged_issues = 0, failed_issues = 0,
       trace = [SearchIssues ''project = PRJ'', PrintSelected 1, PrintEvaluating ''PRJ-1'']\<rparr>,
      Inl AttributeError)"
  by (simp add: find_and_replace_def example_rt_def search_result_def status_open_def
      closed_issue_def process_issue_def emit_def initial_def)

text \<open>
  C3. An issue without the field of a validation rule. The specification expects a
  warning, one more failed test and the next issue. Line 43 names \<open>sys\<close>, which the
  module does not import: the run ends there with \<open>NameError\<close>, nothing is written,
  the counter of failed tests is 0 and no summary is printed.
\<close>

theorem missing_test_field_raises_name_error: 
  "find_and_replace example_rt (search_result [no_status_issue]) ''project = PRJ'' [v12_to_v13]
     [status_open] False
   = (\<lparr>issues_failed_tests = 0, changed_issues = 0, unchanged_issues = 0, failed_issues = 0,
       trace = [SearchIssues ''project = PRJ'', PrintSelected 1, PrintEvaluating ''PRJ-2'']\<rparr>,
      Inl NameError)"
  by (simp add: find_and_replace_def example_rt_def search_result_def status_open_def
      no_status_issue_def process_issue_def emit_def initial_def)

text \<open>
  C5. A rule on the attribute \<open>__doc__\<close>, whose value on the issue is \<open>None\<close>, so
  the rule's pattern has no text of the issue to match. Line 46 matches the pattern
  against the docstring of the list of names instead, finds it, and the issue is
  updated.
\<close>

theorem update_despite_unmatched_rule: 
  "map_of (issue_fields doc_issue) (test_field_name doc_mutable) = Some Other
   \<and> find_and_replace example_rt (search_result [doc_issue]) ''project = PRJ''
     [v12_to_v13] [doc_mutable] False
   = (\<lparr>issues_failed_tests = 0, changed_issues = 1, unchanged_issues = 0, failed_issues = 0,
       trace = [SearchIssues ''project = PRJ'', PrintSelected 1, PrintEvaluating ''PRJ-4'',
                IssueUpdate ''PRJ-4'' [(''summary'', ''Build v1.3 failed'')],
                PrintUpdated ''PRJ-4'' [''summary''], PrintSummary 1 0 1 0 0]\<rparr>,
      Inr None)"
  by (simp add: find_and_replace_def search_result_def v12_to_v13_def example_rt_def doc_mutable_def
      contains_def list_doc_def
      doc_issue_def process_issue_def apply_changes_def py_replace_def emit_def initial_def)

section \<open>Updates\<close>

text \<open>
  C4. The store refuses the update of the first of two issues. The specification
  expects a warning, one more failed issue and the second issue to be processed. The
  handler on line 86 names \<open>sys\<close>: the run ends with \<open>NameError\<close> after the call of
  \<open>update\<close>, the counter of failed issues is 0, the second issue is not evaluated and
  no summary is printed.
\<close>

theorem refused_update_raises_name_error: 
  "find_and_replace example_rt (search_result [refused_issue, closed_issue]) ''project = PRJ''
     [v12_to_v13] [] False
   = (\<lparr>issues_failed_tests = 0, changed_issues = 0, unchanged_issues = 0, failed_issues = 0,
       trace = [SearchIssues ''project = PRJ'', PrintSelected 2, PrintEvaluating ''PRJ-3'',
                IssueUpdate ''PRJ-3'' [(''summary'', ''Build v1.3 failed'')]]\<rparr>,
      Inl NameError)"
  by (simp add: find_and_replace_def search_result_def v12_to_v13_def
      refused_issue_def process_issue_def apply_changes_def py_replace_def emit_def initial_def)

text \<open>
  C10. An issue without the field of a replacement, in a run without \<open>dry_run\<close>. Line
  58 names \<open>sys\<close> before line 60 counts the issue as failed: the run ends with
  \<open>NameError\<close> and the issue has added to none of the four counters.
\<close>

theorem missing_replacement_field_counts_nothing: 
  "find_and_replace example_rt (search_result [no_summary_issue]) ''project = PRJ''
     [v12_to_v13] [] False
   = (\<lparr>issues_failed_tests = 0, changed_issues = 0, unchanged_issues = 0, failed_issues = 0,
       trace = [SearchIssues ''project = PRJ'', PrintSelected 1, PrintEvaluating ''PRJ-5'']\<rparr>,
      Inl NameError)"
  by (simp add: find_and_replace_def search_result_def v12_to_v13_def 
      no_summary_issue_def process_issue_def apply_changes_def py_replace_def emit_def initial_def)
text \<open>
  In a dry run no issue is updated and none is counted as changed, whatever the input.
\<close>

lemma dry_run_never_updates:
  "list_all (\<lambda>e. \<not> is_update e)
     (trace (fst (find_and_replace rt search_issues issue_jql replacements additional_tests True)))
   \<and> changed_issues (fst (find_and_replace rt search_issues issue_jql replacements
        additional_tests True)) = 0"
proof (cases "precompile rt additional_tests")
  case (Inl e)
  then show ?thesis by (simp add: find_and_replace_def initial_def)
next
  case (Inr tests)
  show ?thesis
  proof (cases "search_issues issue_jql")
    case (Inl e)
    with Inr show ?thesis by (simp add: find_and_replace_def initial_def)
  next
    case issues: (Inr issues)
    let ?s0 = "emit [SearchIssues issue_jql, PrintSelected (length issues)] initial"
    obtain s1 r1 where p: "process_issues rt True replacements tests issues ?s0 = (s1, r1)"
      by (cases "process_issues rt True replacements tests issues ?s0")
    from process_issues_events [OF p] obtain evs where
      "trace s1 = trace ?s0 @ evs" "list_all (\<lambda>e. \<not> is_update e) evs"
      "changed_issues s1 = changed_issues ?s0" by auto
    then have "list_all (\<lambda>e. \<not> is_update e) (trace s1)" "changed_issues s1 = 0"
      by (simp_all add: initial_def)
    with Inr issues p show ?thesis
      by (cases r1) (simp_all add: find_and_replace_def)
  qed
qed

text \<open>
  In a dry run, an issue for which \<open>run_tests\<close> returns \<open>True\<close>, which has every
  field of the replacements and a field that some replacement changes, gets its
  change-set printed (line 78) and leaves the four counters as they were.
\<close>

lemma dry_run_issue:
  "(\<exists>evs. trace (fst (process_issue rt True replacements tests i s)) = trace s @ evs
          \<and> list_all (\<lambda>e. \<not> is_update e) evs)
   \<and> changed_issues (fst (process_issue rt True replacements tests i s)) = changed_issues s
   \<and> (run_tests rt (map fst (issue_fields i)) tests = Inr True
      \<and> (\<forall>r \<in> set replacements. repl_field_name r \<in> set (map fst (issue_fields i)))
      \<and> (\<exists>r \<in> set replacements. \<exists>v. map_of (issue_fields i) (repl_field_name r) = Some (Text v)
            \<and> py_replace v (repl_old r) (repl_new r) \<noteq> v)
      \<longrightarrow> (\<exists>skips ch. ch \<noteq> []
            \<and> snd (stage i replacements [] (emit [PrintEvaluating (issue_key i)] s)) = Inr ch
            \<and> list_all (\<lambda>e. \<not> is_update e) skips
            \<and> process_issue rt True replacements tests i s
                = (s\<lparr>trace := trace s @ PrintEvaluating (issue_key i) # skips
                                 @ [PrintDryRun (issue_key i) ch]\<rparr>, None)))"
proof -
  let ?s = "emit [PrintEvaluating (issue_key i)] s"
  obtain s' r' where p: "process_issue rt True replacements tests i s = (s', r')"
    by (cases "process_issue rt True replacements tests i s")
  from process_issue_events [OF p]
  have a: "(\<exists>evs. trace (fst (process_issue rt True replacements tests i s)) = trace s @ evs
          \<and> list_all (\<lambda>e. \<not> is_update e) evs)
     \<and> changed_issues (fst (process_issue rt True replacements tests i s)) = changed_issues s"
    using p by auto
  have b: "\<exists>skips ch. ch \<noteq> []
            \<and> snd (stage i replacements [] ?s) = Inr ch
            \<and> list_all (\<lambda>e. \<not> is_update e) skips
            \<and> process_issue rt True replacements tests i s
                = (s\<lparr>trace := trace s @ PrintEvaluating (issue_key i) # skips
                                 @ [PrintDryRun (issue_key i) ch]\<rparr>, None)"
    if t: "run_tests rt (map fst (issue_fields i)) tests = Inr True"
      and f: "\<forall>r \<in> set replacements. repl_field_name r \<in> set (map fst (issue_fields i))"
      and c: "\<exists>r \<in> set replacements. \<exists>v. map_of (issue_fields i) (repl_field_name r) = Some (Text v)
            \<and> py_replace v (repl_old r) (repl_new r) \<noteq> v"
  proof -
    obtain skips where sk: "fst (stage i replacements [] ?s) = emit skips ?s" "list_all quiet skips"
      using stage_emits by blast
    obtain ch where ch: "snd (stage i replacements [] ?s) = Inr ch"
      using stage_returns [OF f] by blast
    from stage_nonempty [OF ch] c have ne: "ch \<noteq> []" by simp
    from sk ch have st: "stage i replacements [] ?s = (emit skips ?s, Inr ch)"
      by (cases "stage i replacements [] ?s") simp
    from process_issue_staged [OF t f st, of True] ne
    have "process_issue rt True replacements tests i s
            = (s\<lparr>trace := trace s @ PrintEvaluating (issue_key i) # skips
                                 @ [PrintDryRun (issue_key i) ch]\<rparr>, None)"
      by (simp add: apply_changes_def emit_def)
    moreover have "list_all (\<lambda>e. \<not> is_update e) skips"
      using sk(2) by (simp add: quiet_def list_all_iff)
    ultimately show ?thesis using ne ch by blast
  qed
  from a b show ?thesis by blast
qed

text \<open>
  C6. A dry run with the rule that asks for \<open>Open\<close> in \<open>status\<close>, on an issue whose
  \<open>status\<close> is \<open>Open\<close> and whose \<open>summary\<close> the replacement changes. The
  specification expects the change-set to be printed. Line 46 asks the list of
  attribute names for the attribute \<open>status\<close>: the run ends with \<open>AttributeError\<close>
  before the replacements are looked at, and no change-set is printed.
\<close>

theorem dry_run_passing_rule_raises:
  "find_and_replace example_rt (search_result [open_issue]) ''project = PRJ'' [v12_to_v13]
     [status_open] True
   = (\<lparr>issues_failed_tests = 0, changed_issues = 0, unchanged_issues = 0, failed_issues = 0,
       trace = [SearchIssues ''project = PRJ'', PrintSelected 1, PrintEvaluating ''PRJ-7'']\<rparr>,
      Inl AttributeError)"
  by (simp add: find_and_replace_def example_rt_def search_result_def status_open_def
      open_issue_def process_issue_def emit_def initial_def)

section \<open>Applying the replacements again\<close>

text \<open>
  C8, as claimed: a second application changes nothing. The replacement of \<open>a\<close> by
  \<open>aa\<close> turns \<open>a\<close> into \<open>aa\<close>, and applied to that value it stages \<open>aaaa\<close>.
\<close>

theorem replacement_twice_counterexample:
  "py_replace ''a'' (repl_old a_to_aa) (repl_new a_to_aa) = ''aa''
   \<and> py_replace ''aa'' (repl_old a_to_aa) (repl_new a_to_aa) = ''aaaa''
   \<and> snd (stage (summary_issue ''a'') [a_to_aa] [] initial) = Inr [(''summary'', ''aa'')]
   \<and> snd (stage (summary_issue ''aa'') [a_to_aa] [] initial) = Inr [(''summary'', ''aaaa'')]"
  by (simp add: py_replace_def a_to_aa_def summary_issue_def)

text \<open>
  C8, amended. For an issue that has every field of the replacements, applying them
  stages no change exactly when every replacement whose field holds text has \<open>old\<close>
  equal to \<open>new\<close>, or a non-empty \<open>old\<close> that does not occur in the field's value.
  So a second application is a no-op when, and only when, this is true of the values
  the first one wrote.
\<close>

theorem stage_noop_iff:
  assumes "\<forall>r \<in> set replacements. repl_field_name r \<in> set (map fst (issue_fields i))"
  shows "snd (stage i replacements [] s) = Inr [] \<longleftrightarrow>
     (\<forall>r \<in> set replacements. \<forall>w. map_of (issue_fields i) (repl_field_name r) = Some (Text w)
         \<longrightarrow> repl_old r = repl_new r \<or> (repl_old r \<noteq> [] \<and> \<not> sublist (repl_old r) w))"
proof -
  obtain ch where ch: "snd (stage i replacements [] s) = Inr ch"
    using stage_returns [OF assms] by blast
  from stage_nonempty [OF ch] ch show ?thesis
    by (auto simp: py_replace_unchanged_iff)
qed

theorem stage_noop_iff_witness:
  "repl_field_name v12_to_v13 \<in> set (map fst (issue_fields (summary_issue ''Build v1.3 failed'')))
   \<and> \<not> sublist (repl_old v12_to_v13) ''Build v1.3 failed''
   \<and> snd (stage (summary_issue ''Build v1.3 failed'') [v12_to_v13] [] initial) = Inr []"
proof -
  have "\<forall>r \<in> set [v12_to_v13].
          repl_field_name r \<in> set (map fst (issue_fields (summary_issue ''Build v1.3 failed'')))"
    by (simp add: summary_issue_def v12_to_v13_def)
  from stage_noop_iff [OF this, of initial] show ?thesis
    by (simp add: summary_issue_def v12_to_v13_def sublist_Cons_right)
qed

section \<open>The summary and the returned value\<close>

lemma closed_issue_run:
  "find_and_replace example_rt (search_result [closed_issue]) ''project = PRJ''
     [v12_to_v13] [] False
   = (\<lparr>issues_failed_tests = 0, changed_issues = 1, unchanged_issues = 0, failed_issues = 0,
       trace = [SearchIssues ''project = PRJ'', PrintSelected 1, PrintEvaluating ''PRJ-1'',
                IssueUpdate ''PRJ-1'' [(''summary'', ''Build v1.3 failed'')],
                PrintUpdated ''PRJ-1'' [''summary''], PrintSummary 1 0 1 0 0]\<rparr>,
      Inr None)"
  by (simp add: find_and_replace_def search_result_def v12_to_v13_def 
      closed_issue_def process_issue_def apply_changes_def py_replace_def emit_def initial_def)

text \<open>
  C9, as claimed: the function returns a summary of the counts. In the first scenario
  of the specification one issue is selected and changed, and the value returned is
  \<open>None\<close>.
\<close>

theorem returns_run_summary_counterexample:
  "snd (find_and_replace example_rt (search_result [closed_issue]) ''project = PRJ''
          [v12_to_v13] [] False) = Inr None
   \<and> snd (find_and_replace example_rt (search_result [closed_issue]) ''project = PRJ''
          [v12_to_v13] [] False) \<noteq> Inr (Some (1, 0, 1, 0, 0))"
  by (simp add: closed_issue_run)

text \<open>
  C9, amended. A run that ends without an exception returns \<open>None\<close>, and it has
  printed the summary line exactly once, as its last event, with the number of issues
  the search returned and the four counters as they are at the end.
\<close>

theorem summary_once_and_nothing_returned:
  assumes "find_and_replace rt search_issues issue_jql replacements additional_tests dry_run
             = (s, Inr ret)"
  shows "ret = None
     \<and> (\<exists>issues. search_issues issue_jql = Inr issues
          \<and> filter is_summary (trace s)
              = [PrintSummary (length issues) (issues_failed_tests s) (changed_issues s)
                   (unchanged_issues s) (failed_issues s)]
          \<and> last (trace s)
              = PrintSummary (length issues) (issues_failed_tests s) (changed_issues s)
                  (unchanged_issues s) (failed_issues s))"
proof -
  from assms obtain tests where t: "precompile rt additional_tests = Inr tests"
    by (cases "precompile rt additional_tests") (auto simp: find_and_replace_def)
  from assms t obtain issues where i: "search_issues issue_jql = Inr issues"
    by (cases "search_issues issue_jql") (auto simp: find_and_replace_def)
  let ?s0 = "emit [SearchIssues issue_jql, PrintSelected (length issues)] initial"
  obtain s1 r1 where p: "process_issues rt dry_run replacements tests issues ?s0 = (s1, r1)"
    by (cases "process_issues rt dry_run replacements tests issues ?s0")
  with assms t i have r1: "r1 = None"
    by (cases r1) (auto simp: find_and_replace_def)
  let ?sum = "PrintSummary (length issues) (issues_failed_tests s1) (changed_issues s1)
       (unchanged_issues s1) (failed_issues s1)"
  from assms t i p r1 have s: "s = emit [?sum] s1" and ret: "ret = None"
    by (auto simp: find_and_replace_def)
  from process_issues_events [OF p] obtain evs where
    "trace s1 = trace ?s0 @ evs" "list_all (\<lambda>e. \<not> is_summary e) evs" by blast
  then have "filter is_summary (trace s1) = []"
    by (simp add: initial_def filter_is_summary_none)
  with s have "filter is_summary (trace s) = [?sum]" "last (trace s) = ?sum" by simp_all
  with s i ret show ?thesis by simp
qed

theorem summary_once_and_nothing_returned_witness:
  "filter is_summary (trace (fst (find_and_replace example_rt (search_result [closed_issue])
       ''project = PRJ'' [v12_to_v13] [] False))) = [PrintSummary 1 0 1 0 0]
   \<and> snd (find_and_replace example_rt (search_result [closed_issue])
       ''project = PRJ'' [v12_to_v13] [] False) = Inr None"
  using summary_once_and_nothing_returned [OF closed_issue_run] closed_issue_run
  by (simp add: search_result_def)

end
